theory Spec2Isabelle
  imports Main "HOL-Library.AList"
begin

section \<open>JavaScript array primitives used by the token batcher\<close>

text \<open>
  \<^verbatim>\<open>Array.prototype.slice(start, end)\<close> on integer arguments: a negative index counts from
  the end of the array, both indices are clamped to \<open>0..length\<close>, and an empty range gives
  the empty array.
\<close>

definition js_slice :: "'a list \<Rightarrow> int \<Rightarrow> int \<Rightarrow> 'a list" where
  "js_slice xs start stop =
     (let len = int (length xs);
          k = (if start < 0 then max (len + start) 0 else min start len);
          fin = (if stop < 0 then max (len + stop) 0 else min stop len)
      in take (nat (fin - k)) (drop (nat k) xs))"

text \<open>
  The argument of \<^verbatim>\<open>chunk\<close> is any JavaScript value; the function tests
  \<^verbatim>\<open>Array.isArray(items)\<close> first.
\<close>

datatype 'a js_items = NotAnArray | JSArray "'a list"

section \<open>tokenBatcher.js: chunk and reposForBatch\<close>

text \<open>
  \<^verbatim>\<open>chunk(items, size = 500)\<close> and \<^verbatim>\<open>reposForBatch(sortedRepos, batchIndex = 0,
  batchSize = 500)\<close>; the models take every argument explicitly, a caller that omits one
  passes the default. The loop of \<^verbatim>\<open>chunk\<close>:
  \<^verbatim>\<open>for (let i = 0; i < items.length; i += size) out.push(items.slice(i, i + size))\<close>.
  With \<open>size \<le> 0\<close> and a non-empty array the counter never reaches the length and the loop
  does not return; the model is a partial function whose value \<open>None\<close> is "does not return".
\<close>

partial_function (option) chunk_loop ::
  "'a list \<Rightarrow> int \<Rightarrow> int \<Rightarrow> 'a list list \<Rightarrow> 'a list list option" where
  "chunk_loop items sz i out =
     (if i < int (length items)
      then chunk_loop items sz (i + sz) (out @ [js_slice items i (i + sz)])
      else Some out)"

fun chunk :: "'a js_items \<Rightarrow> int \<Rightarrow> 'a list list option" where
  "chunk NotAnArray sz = Some []"
| "chunk (JSArray items) sz = chunk_loop items sz 0 []"

datatype error =
    BatchIndexNegative
  | RepoInfoNotFound string
  | RepoIdNotInAnyBatch
  | ClientIdRequired
  | PrivateKeyRequired
  | InstallationIdRequired
  | JwtError string
  | ProviderError string

definition reposForBatch :: "'a list \<Rightarrow> int \<Rightarrow> int \<Rightarrow> error + 'a list" where
  "reposForBatch sortedRepos batchIndex batchSize =
     (if batchIndex < 0 then Inl BatchIndexNegative
      else Inr (js_slice sortedRepos (batchIndex * batchSize) ((batchIndex + 1) * batchSize)))"

section \<open>JavaScript objects used as dictionaries\<close>

text \<open>
  \<^verbatim>\<open>repoCache\<close>, \<^verbatim>\<open>repoIdCache\<close> are plain objects created by \<^verbatim>\<open>{}\<close>. Their own
  properties are kept as an association list in enumeration order (the order of
  \<^verbatim>\<open>Object.keys\<close> and \<^verbatim>\<open>Object.values\<close>, which for keys that are not array indices is
  insertion order; repository full names have the form \<^verbatim>\<open>owner/name\<close> and are never array
  indices). Assigning to an existing key keeps its position, assigning to a new key
  appends it: this is \<^const>\<open>AList.update\<close>.

  Reading a property that is not an own property falls through to
  \<^verbatim>\<open>Object.prototype\<close>: a name such as \<^verbatim>\<open>constructor\<close> yields an inherited, truthy value
  whose fields \<^verbatim>\<open>id\<close> and \<^verbatim>\<open>installationId\<close> are \<^verbatim>\<open>undefined\<close>.
\<close>

definition object_prototype_keys :: "string list" where
  "object_prototype_keys =
     [''constructor'', ''__proto__'', ''hasOwnProperty'', ''isPrototypeOf'',
      ''propertyIsEnumerable'', ''toLocaleString'', ''toString'', ''valueOf'',
      ''__defineGetter__'', ''__defineSetter__'', ''__lookupGetter__'', ''__lookupSetter__'']"

datatype 'a js_property = Undefined | Inherited | Own 'a

definition js_get :: "(string \<times> 'a) list \<Rightarrow> string \<Rightarrow> 'a js_property" where
  "js_get obj k =
     (case map_of obj k of
        Some v \<Rightarrow> Own v
      | None \<Rightarrow> if k \<in> set object_prototype_keys then Inherited else Undefined)"

section \<open>The repository directory\<close>

record repo_info =
  repo_id :: int
  installationId :: int

type_synonym directory = "(string \<times> repo_info) list"

text \<open>
  The Probot application object, as far as the directory and the broker use it:
  \<^verbatim>\<open>app.auth()\<close> may throw; \<^verbatim>\<open>paginate("GET /app/installations")\<close> yields the installation
  ids; \<^verbatim>\<open>app.auth(inst.id)\<close> followed by \<^verbatim>\<open>paginate("GET /installation/repositories")\<close>
  yields the \<^verbatim>\<open>(full_name, id)\<close> pairs of one installation;
  \<^verbatim>\<open>POST /app/installations/{installation_id}/access_tokens\<close> yields \<^verbatim>\<open>tokenData.token\<close>.
  Each of them either throws (\<open>Inl\<close>) or returns.
\<close>

record app =
  auth_failure :: "error option"
  installations :: "error + int list"
  installation_repos :: "int \<Rightarrow> error + (string \<times> int) list"
  token_request :: "int option \<Rightarrow> int list \<Rightarrow> error + string"

fun cache_repos :: "directory \<Rightarrow> int \<Rightarrow> (string \<times> int) list \<Rightarrow> directory" where
  "cache_repos cache inst [] = cache"
| "cache_repos cache inst ((full_name, rid) # repoList) =
     cache_repos (AList.update full_name \<lparr>repo_id = rid, installationId = inst\<rparr> cache)
       inst repoList"

fun cache_installations :: "app \<Rightarrow> directory \<Rightarrow> int list \<Rightarrow> error option \<times> directory" where
  "cache_installations ap cache [] = (None, cache)"
| "cache_installations ap cache (inst # rest) =
     (case installation_repos ap inst of
        Inl e \<Rightarrow> (Some e, cache)
      | Inr repoList \<Rightarrow> cache_installations ap (cache_repos cache inst repoList) rest)"

text \<open>
  \<^verbatim>\<open>populateRepoCache\<close> (tokenBatcher.js) deletes every key first and then enumerates;
  \<^verbatim>\<open>populateRepoIdCache\<close> (batchTokenCache.js) enumerates into the object as it is.
  Both return the error thrown, if any, and the object as the call leaves it.
\<close>

definition populateRepoCache :: "app \<Rightarrow> directory \<Rightarrow> error option \<times> directory" where
  "populateRepoCache ap repoCache =
     (let cleared = [] in
      case auth_failure ap of
        Some e \<Rightarrow> (Some e, cleared)
      | None \<Rightarrow>
          (case installations ap of
             Inl e \<Rightarrow> (Some e, cleared)
           | Inr insts \<Rightarrow> cache_installations ap cleared insts))"

definition populateRepoIdCache :: "app \<Rightarrow> directory \<Rightarrow> error option \<times> directory" where
  "populateRepoIdCache ap repoIdCache =
     (case auth_failure ap of
        Some e \<Rightarrow> (Some e, repoIdCache)
      | None \<Rightarrow>
          (case installations ap of
             Inl e \<Rightarrow> (Some e, repoIdCache)
           | Inr insts \<Rightarrow> cache_installations ap repoIdCache insts))"

section \<open>batchTokenCache.js: batches of an installation\<close>

definition BATCH_SIZE :: int where
  "BATCH_SIZE = 500"

definition TOKEN_EXPIRY :: int where
  "TOKEN_EXPIRY = 60 * 60 * 1000"

text \<open>
  An installation id read from the directory is a number; read from an inherited property
  it is \<^verbatim>\<open>undefined\<close>, here \<open>None\<close>.
\<close>

definition getInstallationIdForRepo :: "directory \<Rightarrow> string \<Rightarrow> error + int option" where
  "getInstallationIdForRepo repoIdCache repoFullName =
     (case js_get repoIdCache repoFullName of
        Undefined \<Rightarrow> Inl (RepoInfoNotFound repoFullName)
      | Inherited \<Rightarrow> Inr None
      | Own info \<Rightarrow> Inr (Some (installationId info)))"

text \<open>
  \<^verbatim>\<open>Object.values(repoIdCache).filter(info => info.installationId === installationId)
  .map(info => info.id)\<close>
\<close>

definition installation_repo_ids :: "directory \<Rightarrow> int option \<Rightarrow> int list" where
  "installation_repo_ids repoIdCache inst =
     map repo_id (filter (\<lambda>info. Some (installationId info) = inst) (map snd repoIdCache))"

text \<open>\<^verbatim>\<open>repoIdCache[repoFullName]?.id\<close>, and the test \<^verbatim>\<open>!repoId\<close>, which holds of
  \<^verbatim>\<open>undefined\<close> and of \<open>0\<close>.\<close>

definition lookup_repo_id :: "directory \<Rightarrow> string \<Rightarrow> int option" where
  "lookup_repo_id repoIdCache repoFullName =
     (case js_get repoIdCache repoFullName of Own info \<Rightarrow> Some (repo_id info) | _ \<Rightarrow> None)"

fun truthy_id :: "int option \<Rightarrow> bool" where
  "truthy_id None = False"
| "truthy_id (Some n) = (n \<noteq> 0)"

function batches_loop :: "int list \<Rightarrow> int \<Rightarrow> int list list \<Rightarrow> int list list" where
  "batches_loop repoIds i batches =
     (if i < int (length repoIds)
      then batches_loop repoIds (i + BATCH_SIZE) (batches @ [js_slice repoIds i (i + BATCH_SIZE)])
      else batches)"
  by pat_completeness auto
termination
  by (relation "measure (\<lambda>(repoIds, i, batches). nat (int (length repoIds) - i))")
     (auto simp: BATCH_SIZE_def)

fun first_batch_including :: "int \<Rightarrow> int list list \<Rightarrow> error + int list" where
  "first_batch_including repoId [] = Inl RepoIdNotInAnyBatch"
| "first_batch_including repoId (batch # rest) =
     (if repoId \<in> set batch then Inr batch else first_batch_including repoId rest)"

definition getBatchForRepoName :: "directory \<Rightarrow> int option \<Rightarrow> string \<Rightarrow> error + int list" where
  "getBatchForRepoName repoIdCache inst repoFullName =
     (let repoIds = installation_repo_ids repoIdCache inst;
          batches = batches_loop repoIds 0 [];
          repoId = lookup_repo_id repoIdCache repoFullName
      in if \<not> truthy_id repoId then Inl (RepoInfoNotFound repoFullName)
         else first_batch_including (the repoId) batches)"

text \<open>
  The loop of \<^verbatim>\<open>getBatchIndexForRepoName\<close> returns \<^verbatim>\<open>i / BATCH_SIZE\<close>; the counter is
  always a multiple of \<^verbatim>\<open>BATCH_SIZE\<close>, so the quotient is an integer.
\<close>

function index_loop :: "int list \<Rightarrow> int \<Rightarrow> int \<Rightarrow> error + int" where
  "index_loop repoIds repoId i =
     (if i < int (length repoIds)
      then (if repoId \<in> set (js_slice repoIds i (i + BATCH_SIZE))
            then Inr (i div BATCH_SIZE)
            else index_loop repoIds repoId (i + BATCH_SIZE))
      else Inl RepoIdNotInAnyBatch)"
  by pat_completeness auto
termination
  by (relation "measure (\<lambda>(repoIds, repoId, i). nat (int (length repoIds) - i))")
     (auto simp: BATCH_SIZE_def)

definition getBatchIndexForRepoName :: "directory \<Rightarrow> int option \<Rightarrow> string \<Rightarrow> error + int" where
  "getBatchIndexForRepoName repoIdCache inst repoFullName =
     (let repoIds = installation_repo_ids repoIdCache inst;
          repoId = lookup_repo_id repoIdCache repoFullName
      in if \<not> truthy_id repoId then Inl (RepoInfoNotFound repoFullName)
         else index_loop repoIds (the repoId) 0)"

section \<open>batchTokenCache.js: the token broker\<close>

record batch_entry =
  batch :: "int list"
  token :: string
  expiresAt :: int

text \<open>
  \<^verbatim>\<open>batchTokenCache\<close> maps an installation id to an array of entries indexed by batch
  index; the array may have holes.
\<close>

type_synonym token_cache = "int option \<Rightarrow> (int \<Rightarrow> batch_entry option) option"

definition ensure_installation :: "token_cache \<Rightarrow> int option \<Rightarrow> token_cache" where
  "ensure_installation cache inst =
     (if cache inst = None then cache(inst := Some (\<lambda>i. None)) else cache)"

definition cached_entry :: "token_cache \<Rightarrow> int option \<Rightarrow> int \<Rightarrow> batch_entry option" where
  "cached_entry cache inst batchIndex =
     (case cache inst of None \<Rightarrow> None | Some entries \<Rightarrow> entries batchIndex)"

text \<open>
  \<^verbatim>\<open>batchEntry && batchEntry.token && batchEntry.expiresAt > new Date()\<close>: a token is a
  string, falsy when empty; dates are compared by their time value in milliseconds.
\<close>

fun entry_usable :: "batch_entry option \<Rightarrow> int \<Rightarrow> bool" where
  "entry_usable None now = False"
| "entry_usable (Some e) now = (token e \<noteq> [] \<and> expiresAt e > now)"

text \<open>
  \<^verbatim>\<open>batchTokenCache[installationId][batchIndex] = batchEntry\<close>. The array of the
  installation exists when the broker stores an entry, since the synchronous part of the
  call has created it and nothing deletes it.
\<close>

definition store_entry :: "token_cache \<Rightarrow> int option \<Rightarrow> int \<Rightarrow> batch_entry \<Rightarrow> token_cache" where
  "store_entry cache inst batchIndex e =
     (case cache inst of
        None \<Rightarrow> cache
      | Some entries \<Rightarrow> cache(inst := Some (entries(batchIndex := Some e))))"

text \<open>
  A call of \<^verbatim>\<open>getBatchTokenForRepo\<close> runs synchronously up to its first \<^verbatim>\<open>await\<close>:
  it resolves the installation, creates the installation's array if missing, resolves the
  batch index and the batch, and tests the cached entry against the clock. It then either
  has thrown, has returned the cached token, or goes on to request a token.
\<close>

datatype lookup_outcome =
    Threw error
  | CacheHit string
  | CacheMiss "int option" int "int list"

definition broker_lookup ::
  "directory \<Rightarrow> string \<Rightarrow> int \<Rightarrow> token_cache \<Rightarrow> lookup_outcome \<times> token_cache" where
  "broker_lookup repoIdCache repoFullName now cache =
     (case getInstallationIdForRepo repoIdCache repoFullName of
        Inl e \<Rightarrow> (Threw e, cache)
      | Inr inst \<Rightarrow>
          (let cache1 = ensure_installation cache inst in
           case getBatchIndexForRepoName repoIdCache inst repoFullName of
             Inl e \<Rightarrow> (Threw e, cache1)
           | Inr batchIndex \<Rightarrow>
               (let batchEntry = cached_entry cache1 inst batchIndex in
                case getBatchForRepoName repoIdCache inst repoFullName of
                  Inl e \<Rightarrow> (Threw e, cache1)
                | Inr b \<Rightarrow>
                    if entry_usable batchEntry now
                    then (CacheHit (token (the batchEntry)), cache1)
                    else (CacheMiss inst batchIndex b, cache1))))"

text \<open>
  After the response has arrived: \<^verbatim>\<open>expiresAt = new Date(Date.now() + TOKEN_EXPIRY)\<close> and
  the entry \<^verbatim>\<open>{ batch, token, expiresAt }\<close> is stored under the key.
\<close>

definition broker_store ::
  "int option \<Rightarrow> int \<Rightarrow> int list \<Rightarrow> string \<Rightarrow> int \<Rightarrow> token_cache \<Rightarrow> token_cache" where
  "broker_store inst batchIndex b tok now cache =
     store_entry cache inst batchIndex \<lparr>batch = b, token = tok, expiresAt = now + TOKEN_EXPIRY\<rparr>"

text \<open>
  The state of the broker: the cache, and the log of the token requests sent to the
  provider (installation id and \<^verbatim>\<open>repository_ids\<close>).
\<close>

record broker_state =
  batchTokenCache :: token_cache
  provider_requests :: "(int option \<times> int list) list"

text \<open>
  One call run to completion with no other call interleaved. \<open>now\<close> is the clock read by
  the validity test, \<open>later\<close> the clock read after the response.
\<close>

definition getBatchTokenForRepo ::
  "app \<Rightarrow> directory \<Rightarrow> string \<Rightarrow> int \<Rightarrow> int \<Rightarrow> broker_state \<Rightarrow> (error + string) \<times> broker_state" where
  "getBatchTokenForRepo ap repoIdCache repoFullName now later st =
     (case broker_lookup repoIdCache repoFullName now (batchTokenCache st) of
        (Threw e, cache1) \<Rightarrow> (Inl e, st\<lparr>batchTokenCache := cache1\<rparr>)
      | (CacheHit tok, cache1) \<Rightarrow> (Inr tok, st\<lparr>batchTokenCache := cache1\<rparr>)
      | (CacheMiss inst batchIndex b, cache1) \<Rightarrow>
          (case auth_failure ap of
             Some e \<Rightarrow> (Inl e, st\<lparr>batchTokenCache := cache1\<rparr>)
           | None \<Rightarrow>
               (let sent = provider_requests st @ [(inst, b)] in
                case token_request ap inst b of
                  Inl e \<Rightarrow> (Inl e, \<lparr>batchTokenCache = cache1, provider_requests = sent\<rparr>)
                | Inr tok \<Rightarrow>
                    (Inr tok,
                     \<lparr>batchTokenCache = broker_store inst batchIndex b tok later cache1,
                      provider_requests = sent\<rparr>))))"

text \<open>
  Several calls whose synchronous parts run before any response arrives: each call that
  misses the cache sends its own request, which stays in flight.
\<close>

type_synonym in_flight = "(int option \<times> int) \<times> int list"

fun concurrent_calls ::
  "app \<Rightarrow> directory \<Rightarrow> (string \<times> int) list \<Rightarrow> token_cache \<times> in_flight list
     \<Rightarrow> token_cache \<times> in_flight list" where
  "concurrent_calls ap repoIdCache [] s = s"
| "concurrent_calls ap repoIdCache ((repoFullName, now) # calls) (cache, flying) =
     (case broker_lookup repoIdCache repoFullName now cache of
        (CacheMiss inst batchIndex b, cache1) \<Rightarrow>
          (case auth_failure ap of
             None \<Rightarrow> concurrent_calls ap repoIdCache calls
                      (cache1, flying @ [((inst, batchIndex), b)])
           | Some e \<Rightarrow> concurrent_calls ap repoIdCache calls (cache1, flying))
      | (outcome, cache1) \<Rightarrow> concurrent_calls ap repoIdCache calls (cache1, flying))"

definition at_most_one_in_flight :: "in_flight list \<Rightarrow> bool" where
  "at_most_one_in_flight flying = distinct (map fst flying)"

section \<open>getAppInstallationToken.js\<close>

text \<open>
  What one HTTP request to the provider does: it is answered with a status and a body, or
  it is sent and gets no answer, or it cannot be sent.
\<close>

datatype http_outcome = Answered int string | NoAnswer | NotSent

datatype axios_error = WithResponse int | RequestOnly | NeitherRequestNorResponse

datatype axios_result = Resolved int string | Rejected axios_error

text \<open>\<^verbatim>\<open>validateStatus: s => (s >= 200 && s < 300) || [502,503,504].includes(s)\<close>\<close>

definition validateStatus :: "int \<Rightarrow> bool" where
  "validateStatus s = ((s \<ge> 200 \<and> s < 300) \<or> s \<in> set [502, 503, 504])"

definition axios_post :: "http_outcome \<Rightarrow> axios_result" where
  "axios_post outcome =
     (case outcome of
        Answered s body \<Rightarrow> if validateStatus s then Resolved s body else Rejected (WithResponse s)
      | NoAnswer \<Rightarrow> Rejected RequestOnly
      | NotSent \<Rightarrow> Rejected NeitherRequestNorResponse)"

fun isTransient :: "axios_error \<Rightarrow> bool" where
  "isTransient (WithResponse s) = (s \<in> set [502, 503, 504])"
| "isTransient RequestOnly = True"
| "isTransient NeitherRequestNorResponse = False"

text \<open>
  \<^verbatim>\<open>requestInstallationAccessToken\<close>: \<open>provider k\<close> is the outcome of the \<open>k\<close>-th request.
  The result \<open>None\<close> is the value \<^verbatim>\<open>undefined\<close> returned when the loop is left without a
  \<^verbatim>\<open>return\<close>. The delays between attempts are not modelled.
\<close>

function request_loop :: "(int \<Rightarrow> http_outcome) \<Rightarrow> int \<Rightarrow> int \<Rightarrow> string option" where
  "request_loop provider maxAttempts attempt0 =
     (if attempt0 < maxAttempts
      then (let attempt = attempt0 + 1 in
            case axios_post (provider attempt) of
              Resolved status body \<Rightarrow>
                if status \<ge> 200 \<and> status < 300 then Some body
                else if attempt < maxAttempts then request_loop provider maxAttempts attempt
                else None
            | Rejected err \<Rightarrow>
                if isTransient err \<and> attempt < maxAttempts
                then request_loop provider maxAttempts attempt
                else None)
      else None)"
  by pat_completeness auto
termination
  by (relation "measure (\<lambda>(provider, maxAttempts, attempt0). nat (maxAttempts - attempt0))")
     auto

definition requestInstallationAccessToken :: "(int \<Rightarrow> http_outcome) \<Rightarrow> int \<Rightarrow> string option" where
  "requestInstallationAccessToken provider maxAttempts = request_loop provider maxAttempts 0"

text \<open>
  \<^verbatim>\<open>validateCoreParams\<close> and \<^verbatim>\<open>generateJWT\<close>: a string parameter is falsy when empty, the
  installation id when \<open>0\<close>. Reading the key and signing are left to the environment:
  \<open>sign\<close> is the signed JWT or the error thrown.
\<close>

definition validateCoreParams :: "string \<Rightarrow> string \<Rightarrow> int \<Rightarrow> error + unit" where
  "validateCoreParams clientId privatePem inst =
     (if clientId = [] then Inl ClientIdRequired
      else if privatePem = [] then Inl PrivateKeyRequired
      else if inst = 0 then Inl InstallationIdRequired
      else Inr ())"

definition generateJWT :: "(error + string) \<Rightarrow> string \<Rightarrow> string \<Rightarrow> error + string" where
  "generateJWT sign clientId privatePem =
     (if clientId = [] then Inl ClientIdRequired
      else if privatePem = [] then Inl PrivateKeyRequired
      else sign)"

text \<open>
  \<^verbatim>\<open>getAccessToken\<close>: the body runs inside \<^verbatim>\<open>try\<close>, and the \<^verbatim>\<open>catch\<close> block logs the
  error and falls off the end of the function. \<open>Inl\<close> is an error thrown to the caller,
  \<open>Inr None\<close> the value \<^verbatim>\<open>undefined\<close>.
\<close>

definition getAccessToken_body ::
  "(error + string) \<Rightarrow> (int \<Rightarrow> http_outcome) \<Rightarrow> int \<Rightarrow> string \<Rightarrow> string \<Rightarrow> int
     \<Rightarrow> error + string option" where
  "getAccessToken_body sign provider maxAttempts clientId privatePem inst =
     (case validateCoreParams clientId privatePem inst of
        Inl e \<Rightarrow> Inl e
      | Inr u \<Rightarrow>
          (case generateJWT sign clientId privatePem of
             Inl e \<Rightarrow> Inl e
           | Inr jwtToken \<Rightarrow> Inr (requestInstallationAccessToken provider maxAttempts)))"

definition getAccessToken ::
  "(error + string) \<Rightarrow> (int \<Rightarrow> http_outcome) \<Rightarrow> int \<Rightarrow> string \<Rightarrow> string \<Rightarrow> int
     \<Rightarrow> error + string option" where
  "getAccessToken sign provider maxAttempts clientId privatePem inst =
     (case getAccessToken_body sign provider maxAttempts clientId privatePem inst of
        Inl e \<Rightarrow> Inr None
      | Inr r \<Rightarrow> Inr r)"

section \<open>Sample data\<close>

text \<open>
  A directory of three repositories in two installations, an application whose provider
  answers every token request, and an empty broker state.
\<close>

definition sample_directory :: directory where
  "sample_directory =
     [(''octo/alpha'', \<lparr>repo_id = 11, installationId = 7\<rparr>),
      (''octo/beta'', \<lparr>repo_id = 12, installationId = 7\<rparr>),
      (''acme/gamma'', \<lparr>repo_id = 21, installationId = 9\<rparr>)]"

definition sample_app :: app where
  "sample_app =
     \<lparr>auth_failure = None,
      installations = Inr [7],
      installation_repos = (\<lambda>inst. Inr [(''octo/beta'', 12), (''octo/delta'', 13)]),
      token_request = (\<lambda>inst ids. Inr ''ghs_fresh'')\<rparr>"

definition empty_state :: broker_state where
  "empty_state = \<lparr>batchTokenCache = (\<lambda>inst. None), provider_requests = []\<rparr>"

definition stale_entry :: batch_entry where
  "stale_entry = \<lparr>batch = [11, 12], token = ''ghs_stale'', expiresAt = 1000\<rparr>"

definition stale_state :: broker_state where
  "stale_state =
     \<lparr>batchTokenCache = (\<lambda>inst. None)(Some 7 := Some ((\<lambda>i. None)(0 := Some stale_entry))),
      provider_requests = []\<rparr>"

section \<open>Auxiliary: consecutive pieces of a list\<close>

text \<open>
  \<open>pieces n xs\<close> cuts \<open>xs\<close> into consecutive pieces of \<open>n\<close> elements, the last one holding
  the remainder. It is used only to describe what the loops compute.
\<close>

function pieces :: "nat \<Rightarrow> 'a list \<Rightarrow> 'a list list" where
  "pieces n xs = (if n = 0 \<or> xs = [] then [] else take n xs # pieces n (drop n xs))"
  by pat_completeness auto
termination
  by (relation "measure (\<lambda>(n, xs). length xs)") auto

text \<open>
  \<open>first_index_including repoId batches k\<close> is the position, counted from \<open>k\<close>, of the first
  batch that includes \<open>repoId\<close>. It is used only to describe what the index loop computes.
\<close>

fun first_index_including :: "int \<Rightarrow> int list list \<Rightarrow> nat \<Rightarrow> error + int" where
  "first_index_including repoId [] k = Inl RepoIdNotInAnyBatch"
| "first_index_including repoId (b # bs) k =
     (if repoId \<in> set b then Inr (int k) else first_index_including repoId bs (Suc k))"

section \<open>Properties of the auxiliary pieces\<close>

declare pieces.simps [simp del]

declare batches_loop.simps [simp del]

declare index_loop.simps [simp del]

declare request_loop.simps [simp del]

lemma pieces_Nil [simp]: "pieces n [] = []"
  by (simp add: pieces.simps)

lemma pieces_step: "0 < n \<Longrightarrow> xs \<noteq> [] \<Longrightarrow> pieces n xs = take n xs # pieces n (drop n xs)"
  by (subst pieces.simps) simp

lemma concat_pieces: "0 < n \<Longrightarrow> concat (pieces n xs) = xs"
proof (induction n xs rule: pieces.induct)
  case (1 n xs)
  show ?case
  proof (cases "xs = []")
    case True
    then show ?thesis by simp
  next
    case False
    with 1 show ?thesis by (simp add: pieces_step)
  qed
qed

lemma pieces_nonempty: "0 < n \<Longrightarrow> b \<in> set (pieces n xs) \<Longrightarrow> b \<noteq> []"
proof (induction n xs rule: pieces.induct)
  case (1 n xs)
  show ?case
  proof (cases "xs = []")
    case True
    with 1 show ?thesis by simp
  next
    case False
    with 1 show ?thesis by (auto simp: pieces_step)
  qed
qed

lemma pieces_index_iff: "0 < n \<Longrightarrow> (k < length (pieces n xs)) = (k * n < length xs)"
proof (induction k arbitrary: xs)
  case 0
  then show ?case by (cases "xs = []") (simp_all add: pieces_step)
next
  case (Suc k)
  show ?case
  proof (cases "xs = []")
    case True
    then show ?thesis by simp
  next
    case False
    have "(Suc k < length (pieces n xs)) = (k < length (pieces n (drop n xs)))"
      using Suc.prems False by (simp add: pieces_step)
    also have "\<dots> = (k * n < length (drop n xs))"
      using Suc.IH [OF Suc.prems] .
    also have "\<dots> = (Suc k * n < length xs)"
      by auto
    finally show ?thesis .
  qed
qed

lemma pieces_nth:
  "0 < n \<Longrightarrow> k < length (pieces n xs) \<Longrightarrow> pieces n xs ! k = take n (drop (k * n) xs)"
proof (induction k arbitrary: xs)
  case 0
  then have "xs \<noteq> []" by auto
  with 0 show ?case by (simp add: pieces_step)
next
  case (Suc k)
  then have ne: "xs \<noteq> []" by auto
  have step: "pieces n xs = take n xs # pieces n (drop n xs)"
    using Suc.prems(1) ne by (rule pieces_step)
  have "k < length (pieces n (drop n xs))"
    using Suc.prems(2) step by simp
  then have "pieces n (drop n xs) ! k = take n (drop (k * n) (drop n xs))"
    using Suc.IH Suc.prems(1) by blast
  then show ?case
    using step by (simp add: add.commute)
qed

lemma js_slice_nonneg:
  "js_slice xs (int a) (int a + int n) = take n (drop a xs)"
proof (cases "a \<le> length xs")
  case True
  then show ?thesis
    by (auto simp: js_slice_def Let_def min_def)
next
  case False
  then show ?thesis
    by (auto simp: js_slice_def Let_def min_def)
qed

lemma chunk_loop_pieces:
  "0 < n \<Longrightarrow> chunk_loop items (int n) (int j) out = Some (out @ pieces n (drop j items))"
proof (induction "length items - j" arbitrary: j out rule: less_induct)
  case less
  show ?case
  proof (cases "j < length items")
    case True
    have dec: "length items - (j + n) < length items - j"
      using True less.prems by arith
    have ne: "drop j items \<noteq> []" using True by simp
    have "chunk_loop items (int n) (int j) out =
            chunk_loop items (int n) (int (j + n)) (out @ [take n (drop j items)])"
      using True by (subst chunk_loop.simps) (simp add: js_slice_nonneg)
    also have "\<dots> = Some ((out @ [take n (drop j items)]) @ pieces n (drop (j + n) items))"
      using less.hyps [OF dec less.prems] .
    also have "\<dots> = Some (out @ pieces n (drop j items))"
      using pieces_step [OF less.prems ne] by (simp add: add.commute)
    finally show ?thesis .
  next
    case False
    then show ?thesis by (subst chunk_loop.simps) simp
  qed
qed

lemma chunk_pieces: "1 \<le> sz \<Longrightarrow> chunk (JSArray items) sz = Some (pieces (nat sz) items)"
  using chunk_loop_pieces [of "nat sz" items 0 "[]"] by simp

lemma chunk_loop_returns_past_end:
  assumes "chunk_loop items sz i out = Some y"
  shows "sz \<le> 0 \<longrightarrow> \<not> i < int (length items)"
proof (rule chunk_loop.raw_induct
         [where P = "\<lambda>items sz i out y. sz \<le> 0 \<longrightarrow> \<not> i < int (length items)", OF _ assms])
  fix loop :: "'a list \<Rightarrow> int \<Rightarrow> int \<Rightarrow> 'a list list \<Rightarrow> 'a list list option"
  fix items sz i out y
  assume ih: "\<And>items sz i out y. loop items sz i out = Some y \<Longrightarrow>
                sz \<le> 0 \<longrightarrow> \<not> i < int (length items)"
  assume body: "(if i < int (length items)
                 then loop items sz (i + sz) (out @ [js_slice items i (i + sz)])
                 else Some out) = Some y"
  show "sz \<le> 0 \<longrightarrow> \<not> i < int (length items)"
  proof (intro impI notI)
    assume sz: "sz \<le> 0" and lt: "i < int (length items)"
    from body lt have "loop items sz (i + sz) (out @ [js_slice items i (i + sz)]) = Some y"
      by simp
    from ih [OF this] sz lt show False by simp
  qed
qed

lemma chunk_nonpositive_size_diverges:
  assumes "items \<noteq> []" and "sz \<le> 0"
  shows "chunk (JSArray items) sz = None"
proof (cases "chunk (JSArray items) sz")
  case None
  then show ?thesis .
next
  case (Some y)
  then have "chunk_loop items sz 0 [] = Some y" by simp
  from chunk_loop_returns_past_end [OF this] assms show ?thesis by simp
qed

lemma take_drop_positions:
  "a + m \<le> length xs \<Longrightarrow> take m (drop a xs) = map ((!) xs) [a ..< a + m]"
  by (rule nth_equalityI) (auto simp: add.commute)

lemma pieces_piece_length:
  assumes "0 < n" and "k < length (pieces n xs)"
  shows "length (pieces n xs ! k) = min n (length xs - k * n)"
  using assms by (simp add: pieces_nth min.commute)

lemma js_slice_batch:
  assumes "0 \<le> i" and "1 \<le> n"
  shows "js_slice xs (i * n) ((i + 1) * n) = take (nat n) (drop (nat i * nat n) xs)"
proof -
  have a: "i * n = int (nat i * nat n)"
    using assms by (simp add: nat_mult_distrib)
  have b: "(i + 1) * n = int (nat i * nat n) + int (nat n)"
    using assms a by (simp add: algebra_simps)
  show ?thesis
    unfolding a b by (rule js_slice_nonneg)
qed

section \<open>The loops of batchTokenCache.js compute the same partition\<close>

lemma batches_loop_pieces:
  "batches_loop repoIds (int j) batches = batches @ pieces 500 (drop j repoIds)"
proof (induction "length repoIds - j" arbitrary: j batches rule: less_induct)
  case less
  show ?case
  proof (cases "j < length repoIds")
    case True
    have dec: "length repoIds - (j + 500) < length repoIds - j"
      using True by arith
    have ne: "drop j repoIds \<noteq> []" using True by simp
    have "batches_loop repoIds (int j) batches =
            batches_loop repoIds (int (j + 500)) (batches @ [take 500 (drop j repoIds)])"
      using True js_slice_nonneg [of repoIds j 500]
      by (subst batches_loop.simps) (simp add: BATCH_SIZE_def)
    also have "\<dots> = (batches @ [take 500 (drop j repoIds)]) @ pieces 500 (drop (j + 500) repoIds)"
      using less.hyps [OF dec] .
    also have "\<dots> = batches @ pieces 500 (drop j repoIds)"
      using pieces_step [OF _ ne, of 500] by (simp add: add.commute)
    finally show ?thesis .
  next
    case False
    then show ?thesis by (subst batches_loop.simps) simp
  qed
qed

lemma batches_loop_chunk:
  "chunk (JSArray repoIds) BATCH_SIZE = Some (batches_loop repoIds 0 [])"
  using batches_loop_pieces [of repoIds 0 "[]"] chunk_pieces [of BATCH_SIZE repoIds]
  by (simp add: BATCH_SIZE_def)

lemma index_loop_unfold:
  "index_loop repoIds repoId (int (k * 500)) =
     (if k * 500 < length repoIds
      then (if repoId \<in> set (take 500 (drop (k * 500) repoIds)) then Inr (int k)
            else index_loop repoIds repoId (int (Suc k * 500)))
      else Inl RepoIdNotInAnyBatch)"
proof -
  have nxt: "int (k * 500) + 500 = int (Suc k * 500)"
    by simp
  have sl: "js_slice repoIds (int (k * 500)) (int (Suc k * 500)) =
              take 500 (drop (k * 500) repoIds)"
    using js_slice_nonneg [of repoIds "k * 500" 500] by (simp add: add.commute)
  have quot: "int (k * 500) div 500 = int k"
    by simp
  have "index_loop repoIds repoId (int (k * 500)) =
          (if int (k * 500) < int (length repoIds)
           then (if repoId \<in> set (js_slice repoIds (int (k * 500)) (int (k * 500) + BATCH_SIZE))
                 then Inr (int (k * 500) div BATCH_SIZE)
                 else index_loop repoIds repoId (int (k * 500) + BATCH_SIZE))
           else Inl RepoIdNotInAnyBatch)"
    by (rule index_loop.simps)
  then show ?thesis
    by (simp only: BATCH_SIZE_def nxt sl quot of_nat_less_iff)
qed

lemma index_loop_pieces:
  "index_loop repoIds repoId (int (k * 500)) =
     first_index_including repoId (pieces 500 (drop (k * 500) repoIds)) k"
proof (induction "length repoIds - k * 500" arbitrary: k rule: less_induct)
  case less
  show ?case
  proof (cases "k * 500 < length repoIds")
    case True
    have dec: "length repoIds - Suc k * 500 < length repoIds - k * 500"
      using True by arith
    have ne: "drop (k * 500) repoIds \<noteq> []" using True by simp
    have step: "pieces 500 (drop (k * 500) repoIds) =
                  take 500 (drop (k * 500) repoIds) # pieces 500 (drop (Suc k * 500) repoIds)"
      using pieces_step [OF _ ne, of 500] by (simp add: add.commute)
    show ?thesis
    proof (cases "repoId \<in> set (take 500 (drop (k * 500) repoIds))")
      case In: True
      have "index_loop repoIds repoId (int (k * 500)) = Inr (int k)"
        using True In by (subst index_loop_unfold) simp
      then show ?thesis using In step by simp
    next
      case Out: False
      have "index_loop repoIds repoId (int (k * 500)) =
              index_loop repoIds repoId (int (Suc k * 500))"
        using True Out by (subst index_loop_unfold) simp
      also have "\<dots> = first_index_including repoId (pieces 500 (drop (Suc k * 500) repoIds)) (Suc k)"
        using less.hyps [OF dec] .
      finally show ?thesis using Out step by simp
    qed
  next
    case False
    then show ?thesis by (subst index_loop_unfold) simp
  qed
qed

lemma first_index_including_Inr:
  "first_index_including repoId bs k = Inr i \<Longrightarrow>
     \<exists>m<length bs. i = int (k + m) \<and> first_batch_including repoId bs = Inr (bs ! m) \<and>
                   repoId \<in> set (bs ! m)"
proof (induction bs arbitrary: k)
  case Nil
  then show ?case by simp
next
  case (Cons b bs)
  show ?case
  proof (cases "repoId \<in> set b")
    case True
    with Cons.prems show ?thesis by (intro exI [of _ 0]) simp
  next
    case False
    with Cons.prems have "first_index_including repoId bs (Suc k) = Inr i" by simp
    from Cons.IH [OF this] obtain m where
      "m < length bs" "i = int (Suc k + m)"
      "first_batch_including repoId bs = Inr (bs ! m)" "repoId \<in> set (bs ! m)"
      by blast
    with False show ?thesis by (intro exI [of _ "Suc m"]) simp
  qed
qed

lemma first_index_including_total:
  "repoId \<in> set (concat bs) \<Longrightarrow> \<exists>i. first_index_including repoId bs k = Inr i"
  by (induction bs arbitrary: k) auto

lemma index_resolves_batch:
  assumes "getBatchIndexForRepoName repoIdCache inst repoFullName = Inr i"
  shows "0 \<le> i \<and> nat i < length (pieces 500 (installation_repo_ids repoIdCache inst)) \<and>
         getBatchForRepoName repoIdCache inst repoFullName =
           Inr (pieces 500 (installation_repo_ids repoIdCache inst) ! nat i) \<and>
         (\<exists>rid. lookup_repo_id repoIdCache repoFullName = Some rid \<and> rid \<noteq> 0 \<and>
                rid \<in> set (pieces 500 (installation_repo_ids repoIdCache inst) ! nat i))"
proof -
  define ids where "ids = installation_repo_ids repoIdCache inst"
  from assms obtain rid where rid: "lookup_repo_id repoIdCache repoFullName = Some rid" "rid \<noteq> 0"
    by (cases "lookup_repo_id repoIdCache repoFullName")
       (auto simp: getBatchIndexForRepoName_def Let_def split: if_splits)
  from assms rid have "index_loop ids rid 0 = Inr i"
    by (simp add: getBatchIndexForRepoName_def Let_def ids_def)
  then have "first_index_including rid (pieces 500 ids) 0 = Inr i"
    using index_loop_pieces [of ids rid 0] by simp
  from first_index_including_Inr [OF this] obtain m where
    m: "m < length (pieces 500 ids)" "i = int m"
       "first_batch_including rid (pieces 500 ids) = Inr (pieces 500 ids ! m)"
       "rid \<in> set (pieces 500 ids ! m)"
    by auto
  have "getBatchForRepoName repoIdCache inst repoFullName = Inr (pieces 500 ids ! m)"
    using rid m(3) batches_loop_pieces [of ids 0 "[]"]
    by (simp add: getBatchForRepoName_def Let_def ids_def)
  with m rid show ?thesis by (simp add: ids_def)
qed

section \<open>The token broker\<close>

lemma cached_entry_ensure_installation:
  "cached_entry (ensure_installation cache inst) inst' i = cached_entry cache inst' i"
  by (simp add: cached_entry_def ensure_installation_def)

lemma ensure_installation_present:
  "cached_entry cache inst i = Some e \<Longrightarrow> ensure_installation cache inst = cache"
  by (auto simp: cached_entry_def ensure_installation_def split: option.splits)

lemma cached_entry_store_same:
  "cache inst \<noteq> None \<Longrightarrow> cached_entry (store_entry cache inst i e) inst i = Some e"
  by (auto simp: cached_entry_def store_entry_def)

lemma cached_entry_store_other:
  "(inst', i') \<noteq> (inst, i) \<Longrightarrow>
     cached_entry (store_entry cache inst i e) inst' i' = cached_entry cache inst' i'"
  by (auto simp: cached_entry_def store_entry_def split: option.splits)

lemma broker_lookup_resolved:
  assumes "getInstallationIdForRepo repoIdCache repoFullName = Inr inst"
      and "getBatchIndexForRepoName repoIdCache inst repoFullName = Inr batchIndex"
      and "getBatchForRepoName repoIdCache inst repoFullName = Inr b"
  shows "broker_lookup repoIdCache repoFullName now cache =
           (if entry_usable (cached_entry cache inst batchIndex) now
            then CacheHit (token (the (cached_entry cache inst batchIndex)))
            else CacheMiss inst batchIndex b,
            ensure_installation cache inst)"
  using assms by (simp add: broker_lookup_def Let_def cached_entry_ensure_installation)

lemma expired_entry_provider_failure:
  assumes "getInstallationIdForRepo repoIdCache repoFullName = Inr inst"
      and "getBatchIndexForRepoName repoIdCache inst repoFullName = Inr batchIndex"
      and "getBatchForRepoName repoIdCache inst repoFullName = Inr b"
      and "cached_entry (batchTokenCache st) inst batchIndex = Some old"
      and "expiresAt old \<le> now"
      and "auth_failure ap = None"
      and "token_request ap inst b = Inl e"
  shows "getBatchTokenForRepo ap repoIdCache repoFullName now later st =
           (Inl e, st\<lparr>provider_requests := provider_requests st @ [(inst, b)]\<rparr>)"
proof -
  have "broker_lookup repoIdCache repoFullName now (batchTokenCache st) =
          (CacheMiss inst batchIndex b, batchTokenCache st)"
    using broker_lookup_resolved [OF assms(1,2,3)] assms(4,5)
          ensure_installation_present [OF assms(4)]
    by simp
  then show ?thesis
    using assms(6,7) by (simp add: getBatchTokenForRepo_def Let_def)
qed

section \<open>The sample directory, evaluated\<close>

lemma sample_repo_ids: "installation_repo_ids sample_directory (Some 7) = [11, 12]"
  by (simp add: installation_repo_ids_def sample_directory_def)

lemma sample_lookup:
  "lookup_repo_id sample_directory ''octo/alpha'' = Some 11"
  "lookup_repo_id sample_directory ''octo/beta'' = Some 12"
  by (simp_all add: lookup_repo_id_def js_get_def sample_directory_def)

lemma sample_installation:
  "getInstallationIdForRepo sample_directory ''octo/alpha'' = Inr (Some 7)"
  "getInstallationIdForRepo sample_directory ''octo/beta'' = Inr (Some 7)"
  by (simp_all add: getInstallationIdForRepo_def js_get_def sample_directory_def)

lemma sample_index:
  "getBatchIndexForRepoName sample_directory (Some 7) ''octo/alpha'' = Inr 0"
  "getBatchIndexForRepoName sample_directory (Some 7) ''octo/beta'' = Inr 0"
  by (simp_all add: getBatchIndexForRepoName_def sample_repo_ids sample_lookup
        index_loop.simps [of _ _ 0] js_slice_def BATCH_SIZE_def)

lemma sample_batch:
  "getBatchForRepoName sample_directory (Some 7) ''octo/alpha'' = Inr [11, 12]"
  "getBatchForRepoName sample_directory (Some 7) ''octo/beta'' = Inr [11, 12]"
  by (simp_all add: getBatchForRepoName_def sample_repo_ids sample_lookup
        batches_loop.simps [of _ 0] batches_loop.simps [of _ 500] js_slice_def BATCH_SIZE_def)

lemma sample_first_call:
  "getBatchTokenForRepo sample_app sample_directory ''octo/alpha'' 0 5 empty_state =
     (Inr ''ghs_fresh'',
      \<lparr>batchTokenCache =
         (\<lambda>inst. None)(Some 7 := Some ((\<lambda>i. None)(0 :=
            Some \<lparr>batch = [11, 12], token = ''ghs_fresh'', expiresAt = 3600005\<rparr>))),
       provider_requests = [(Some 7, [11, 12])]\<rparr>)"
  by (simp add: getBatchTokenForRepo_def broker_lookup_def sample_installation sample_index
        sample_batch empty_state_def sample_app_def ensure_installation_def cached_entry_def
        broker_store_def store_entry_def TOKEN_EXPIRY_def)

section \<open>Directory refresh\<close>

lemma keys_cache_repos:
  "fst ` set (cache_repos cache inst repoList) = fst ` set cache \<union> fst ` set repoList"
proof (induction repoList arbitrary: cache)
  case Nil
  then show ?case by simp
next
  case (Cons r repoList)
  obtain full_name rid where r: "r = (full_name, rid)" by (cases r)
  show ?case
    unfolding r by (simp add: Cons.IH dom_update)
qed

lemma keys_cache_installations:
  "cache_installations ap cache insts = (None, cache') \<Longrightarrow>
     fst ` set cache' = fst ` set cache \<union>
       (\<Union>inst\<in>set insts. case installation_repos ap inst of
                               Inl e \<Rightarrow> {} | Inr repoList \<Rightarrow> fst ` set repoList)"
proof (induction insts arbitrary: cache)
  case Nil
  then show ?case by simp
next
  case (Cons inst insts)
  show ?case
  proof (cases "installation_repos ap inst")
    case (Inl e)
    with Cons.prems show ?thesis by simp
  next
    case (Inr repoList)
    with Cons.prems have
      "cache_installations ap (cache_repos cache inst repoList) insts = (None, cache')"
      by simp
    from Cons.IH [OF this] Inr show ?thesis
      by (simp add: keys_cache_repos Un_assoc)
  qed
qed

lemma populateRepoCache_exact:
  assumes "populateRepoCache ap repoCache = (None, repoCache')"
      and "installations ap = Inr insts"
  shows "fst ` set repoCache' =
           (\<Union>inst\<in>set insts. case installation_repos ap inst of
                                   Inl e \<Rightarrow> {} | Inr repoList \<Rightarrow> fst ` set repoList)"
proof -
  from assms have "cache_installations ap [] insts = (None, repoCache')"
    by (simp add: populateRepoCache_def split: option.splits)
  from keys_cache_installations [OF this] show ?thesis by simp
qed

lemma populateRepoIdCache_keeps_keys:
  assumes "populateRepoIdCache ap repoIdCache = (None, repoIdCache')"
      and "installations ap = Inr insts"
  shows "fst ` set repoIdCache' = fst ` set repoIdCache \<union>
           (\<Union>inst\<in>set insts. case installation_repos ap inst of
                                   Inl e \<Rightarrow> {} | Inr repoList \<Rightarrow> fst ` set repoList)"
proof -
  from assms have "cache_installations ap repoIdCache insts = (None, repoIdCache')"
    by (simp add: populateRepoIdCache_def split: option.splits)
  from keys_cache_installations [OF this] show ?thesis .
qed

section \<open>Concurrent calls\<close>

lemma concurrent_calls_same_key:
  assumes "auth_failure ap = None"
      and "\<forall>c\<in>set calls.
             getInstallationIdForRepo repoIdCache (fst c) = Inr inst \<and>
             getBatchIndexForRepoName repoIdCache inst (fst c) = Inr batchIndex \<and>
             \<not> entry_usable (cached_entry cache inst batchIndex) (snd c)"
  shows "snd (concurrent_calls ap repoIdCache calls (cache, flying)) =
           flying @ replicate (length calls)
             ((inst, batchIndex),
              pieces 500 (installation_repo_ids repoIdCache inst) ! nat batchIndex)"
  using assms(2)
proof (induction calls arbitrary: cache flying)
  case Nil
  then show ?case by simp
next
  case (Cons c calls)
  define b where "b = pieces 500 (installation_repo_ids repoIdCache inst) ! nat batchIndex"
  obtain repoFullName now where c: "c = (repoFullName, now)" by (cases c)
  from Cons.prems c have
    r1: "getInstallationIdForRepo repoIdCache repoFullName = Inr inst" and
    r2: "getBatchIndexForRepoName repoIdCache inst repoFullName = Inr batchIndex" and
    r3: "\<not> entry_usable (cached_entry cache inst batchIndex) now"
    by auto
  have r4: "getBatchForRepoName repoIdCache inst repoFullName = Inr b"
    using index_resolves_batch [OF r2] by (simp add: b_def)
  have look: "broker_lookup repoIdCache repoFullName now cache =
                (CacheMiss inst batchIndex b, ensure_installation cache inst)"
    using broker_lookup_resolved [OF r1 r2 r4] r3 by simp
  have rest: "\<forall>c\<in>set calls.
                getInstallationIdForRepo repoIdCache (fst c) = Inr inst \<and>
                getBatchIndexForRepoName repoIdCache inst (fst c) = Inr batchIndex \<and>
                \<not> entry_usable (cached_entry (ensure_installation cache inst) inst batchIndex)
                     (snd c)"
    using Cons.prems by (simp add: cached_entry_ensure_installation)
  have "snd (concurrent_calls ap repoIdCache (c # calls) (cache, flying)) =
          snd (concurrent_calls ap repoIdCache calls
                 (ensure_installation cache inst, flying @ [((inst, batchIndex), b)]))"
    using look assms(1) by (simp add: c)
  also have "\<dots> = (flying @ [((inst, batchIndex), b)]) @
                      replicate (length calls) ((inst, batchIndex), b)"
    using Cons.IH [OF rest] by (simp add: b_def)
  also have "\<dots> = flying @ replicate (length (c # calls)) ((inst, batchIndex), b)"
    by simp
  finally show ?case by (simp add: b_def)
qed

section \<open>Token requests\<close>

lemma getAccessToken_never_throws:
  "getAccessToken sign provider maxAttempts clientId privatePem inst \<noteq> Inl e"
  by (simp add: getAccessToken_def split: sum.splits)

lemma request_loop_never_answered:
  assumes "\<forall>k s body. provider k = Answered s body \<longrightarrow> \<not> (200 \<le> s \<and> s < 300)"
  shows "request_loop provider maxAttempts attempt0 = None"
  using assms
proof (induction provider maxAttempts attempt0 rule: request_loop.induct)
  case (1 provider maxAttempts attempt0)
  show ?case
  proof (cases "attempt0 < maxAttempts")
    case False
    then show ?thesis by (subst request_loop.simps) simp
  next
    case True
    show ?thesis
    proof (cases "axios_post (provider (attempt0 + 1))")
      case (Resolved status body)
      then have "provider (attempt0 + 1) = Answered status body"
        by (auto simp: axios_post_def split: http_outcome.splits if_splits)
      with 1(3) have bad: "\<not> (200 \<le> status \<and> status < 300)" by blast
      show ?thesis
        using True Resolved bad 1(1) [OF True refl Resolved bad] 1(3)
        by (subst request_loop.simps) (simp add: Let_def)
    next
      case (Rejected err)
      show ?thesis
        using True Rejected 1(2) [OF True refl Rejected] 1(3)
        by (subst request_loop.simps) (simp add: Let_def)
    qed
  qed
qed

lemma getAccessToken_failed_request_returns_undefined:
  assumes "\<forall>k s body. provider k = Answered s body \<longrightarrow> \<not> (200 \<le> s \<and> s < 300)"
  shows "getAccessToken sign provider maxAttempts clientId privatePem inst = Inr None"
  using request_loop_never_answered [OF assms]
  by (simp add: getAccessToken_def getAccessToken_body_def requestInstallationAccessToken_def
        split: sum.splits)

section \<open>Expiry and validity of cached credentials\<close>

text \<open>
  Claim C1. When the broker resolves a repository to the key \<open>(inst, batchIndex)\<close> with
  batch \<open>b\<close>, the cache holds for that key an entry whose \<open>expiresAt\<close> is not later than the
  time of the call, the clock does not run backwards during the call and the provider
  answers the request, the call sends exactly one request (for \<open>b\<close>), returns the new
  credential, replaces the entry of that key by the new batch members, credential and
  expiry, leaves every other key as it was, and the new \<open>expiresAt\<close> is strictly greater
  than the old one.
\<close>

theorem expired_entry_is_replaced:
  assumes "getInstallationIdForRepo repoIdCache repoFullName = Inr inst"
      and "getBatchIndexForRepoName repoIdCache inst repoFullName = Inr batchIndex"
      and "getBatchForRepoName repoIdCache inst repoFullName = Inr b"
      and "cached_entry (batchTokenCache st) inst batchIndex = Some old"
      and "expiresAt old \<le> now"
      and "now \<le> later"
      and "auth_failure ap = None"
      and "token_request ap inst b = Inr tok"
  shows "\<exists>st'. getBatchTokenForRepo ap repoIdCache repoFullName now later st = (Inr tok, st') \<and>
           provider_requests st' = provider_requests st @ [(inst, b)] \<and>
           cached_entry (batchTokenCache st') inst batchIndex =
             Some \<lparr>batch = b, token = tok, expiresAt = later + TOKEN_EXPIRY\<rparr> \<and>
           expiresAt old < later + TOKEN_EXPIRY \<and>
           (\<forall>inst' i'. (inst', i') \<noteq> (inst, batchIndex) \<longrightarrow>
              cached_entry (batchTokenCache st') inst' i' =
              cached_entry (batchTokenCache st) inst' i')"
proof -
  define new where "new = \<lparr>batch = b, token = tok, expiresAt = later + TOKEN_EXPIRY\<rparr>"
  define st' where
    "st' = \<lparr>batchTokenCache = store_entry (batchTokenCache st) inst batchIndex new,
            provider_requests = provider_requests st @ [(inst, b)]\<rparr>"
  have present: "batchTokenCache st inst \<noteq> None"
    using assms(4) by (auto simp: cached_entry_def split: option.splits)
  have "broker_lookup repoIdCache repoFullName now (batchTokenCache st) =
          (CacheMiss inst batchIndex b, batchTokenCache st)"
    using broker_lookup_resolved [OF assms(1,2,3)] assms(4,5)
          ensure_installation_present [OF assms(4)]
    by simp
  then have run: "getBatchTokenForRepo ap repoIdCache repoFullName now later st = (Inr tok, st')"
    using assms(7,8)
    by (simp add: getBatchTokenForRepo_def Let_def broker_store_def st'_def new_def)
  have sent: "provider_requests st' = provider_requests st @ [(inst, b)]"
    by (simp add: st'_def)
  have entry: "cached_entry (batchTokenCache st') inst batchIndex = Some new"
    using present cached_entry_store_same [of "batchTokenCache st" inst batchIndex new]
    by (simp add: st'_def)
  have later: "expiresAt old < later + TOKEN_EXPIRY"
    using assms(5,6) by (simp add: TOKEN_EXPIRY_def)
  have others: "\<forall>inst' i'. (inst', i') \<noteq> (inst, batchIndex) \<longrightarrow>
                  cached_entry (batchTokenCache st') inst' i' =
                  cached_entry (batchTokenCache st) inst' i'"
    using cached_entry_store_other by (simp add: st'_def)
  show ?thesis
    using run sent entry later others unfolding new_def by blast
qed

theorem expired_entry_is_replaced_witness:
  "getInstallationIdForRepo sample_directory ''octo/alpha'' = Inr (Some 7) \<and>
   getBatchIndexForRepoName sample_directory (Some 7) ''octo/alpha'' = Inr 0 \<and>
   getBatchForRepoName sample_directory (Some 7) ''octo/alpha'' = Inr [11, 12] \<and>
   cached_entry (batchTokenCache stale_state) (Some 7) 0 = Some stale_entry \<and>
   expiresAt stale_entry \<le> 2000 \<and> (2000::int) \<le> 2003 \<and>
   auth_failure sample_app = None \<and>
   token_request sample_app (Some 7) [11, 12] = Inr ''ghs_fresh'' \<and>
   (\<exists>st'. getBatchTokenForRepo sample_app sample_directory ''octo/alpha'' 2000 2003 stale_state =
            (Inr ''ghs_fresh'', st') \<and>
          provider_requests st' = provider_requests stale_state @ [(Some 7, [11, 12])] \<and>
          cached_entry (batchTokenCache st') (Some 7) 0 =
            Some \<lparr>batch = [11, 12], token = ''ghs_fresh'', expiresAt = 2003 + TOKEN_EXPIRY\<rparr> \<and>
          expiresAt stale_entry < 2003 + TOKEN_EXPIRY \<and>
          (\<forall>inst' i'. (inst', i') \<noteq> (Some 7, 0) \<longrightarrow>
             cached_entry (batchTokenCache st') inst' i' =
             cached_entry (batchTokenCache stale_state) inst' i'))"
proof -
  have h1: "getInstallationIdForRepo sample_directory ''octo/alpha'' = Inr (Some 7)"
    by (rule sample_installation)
  have h2: "getBatchIndexForRepoName sample_directory (Some 7) ''octo/alpha'' = Inr 0"
    by (rule sample_index)
  have h3: "getBatchForRepoName sample_directory (Some 7) ''octo/alpha'' = Inr [11, 12]"
    by (rule sample_batch)
  have h4: "cached_entry (batchTokenCache stale_state) (Some 7) 0 = Some stale_entry"
    by (simp add: cached_entry_def stale_state_def)
  have h5: "expiresAt stale_entry \<le> 2000" by (simp add: stale_entry_def)
  have h6: "(2000::int) \<le> 2003" by simp
  have h7: "auth_failure sample_app = None" by (simp add: sample_app_def)
  have h8: "token_request sample_app (Some 7) [11, 12] = Inr ''ghs_fresh''"
    by (simp add: sample_app_def)
  show ?thesis
    using h1 h2 h3 h4 h5 h6 h7 h8
      expired_entry_is_replaced [OF h1 h2 h3 h4 h5 h6 h7 h8]
    by blast
qed

text \<open>
  Claim C2. When the broker resolves a repository to the key \<open>(inst, batchIndex)\<close> and the
  cache holds for that key an entry with a credential whose \<open>expiresAt\<close> is later than the
  time of the call, the call returns the cached credential, sends no request to the
  provider and leaves the cache as it is.
\<close>

theorem cache_hit_returns_cached_token:
  assumes "getInstallationIdForRepo repoIdCache repoFullName = Inr inst"
      and "getBatchIndexForRepoName repoIdCache inst repoFullName = Inr batchIndex"
      and "cached_entry (batchTokenCache st) inst batchIndex = Some e"
      and "token e \<noteq> []"
      and "now < expiresAt e"
  shows "getBatchTokenForRepo ap repoIdCache repoFullName now later st = (Inr (token e), st)"
proof -
  from index_resolves_batch [OF assms(2)] obtain b where
    b: "getBatchForRepoName repoIdCache inst repoFullName = Inr b"
    by blast
  have "broker_lookup repoIdCache repoFullName now (batchTokenCache st) =
          (CacheHit (token e), batchTokenCache st)"
    using broker_lookup_resolved [OF assms(1,2) b] assms(3,4,5)
          ensure_installation_present [OF assms(3)]
    by simp
  then show ?thesis
    by (simp add: getBatchTokenForRepo_def)
qed

theorem cache_hit_returns_cached_token_witness:
  "getInstallationIdForRepo sample_directory ''octo/beta'' = Inr (Some 7) \<and>
   getBatchIndexForRepoName sample_directory (Some 7) ''octo/beta'' = Inr 0 \<and>
   cached_entry
     (batchTokenCache
        (snd (getBatchTokenForRepo sample_app sample_directory ''octo/alpha'' 0 5 empty_state)))
     (Some 7) 0 =
     Some \<lparr>batch = [11, 12], token = ''ghs_fresh'', expiresAt = 3600005\<rparr> \<and>
   ''ghs_fresh'' \<noteq> [] \<and> (100::int) < 3600005 \<and>
   getBatchTokenForRepo sample_app sample_directory ''octo/beta'' 100 105
     (snd (getBatchTokenForRepo sample_app sample_directory ''octo/alpha'' 0 5 empty_state)) =
     (Inr ''ghs_fresh'',
      snd (getBatchTokenForRepo sample_app sample_directory ''octo/alpha'' 0 5 empty_state))"
proof -
  define st1 where
    "st1 = snd (getBatchTokenForRepo sample_app sample_directory ''octo/alpha'' 0 5 empty_state)"
  define e where "e = \<lparr>batch = [11, 12], token = ''ghs_fresh'', expiresAt = 3600005\<rparr>"
  have h1: "getInstallationIdForRepo sample_directory ''octo/beta'' = Inr (Some 7)"
    by (rule sample_installation)
  have h2: "getBatchIndexForRepoName sample_directory (Some 7) ''octo/beta'' = Inr 0"
    by (rule sample_index)
  have h3: "cached_entry (batchTokenCache st1) (Some 7) 0 = Some e"
    by (simp add: st1_def e_def sample_first_call cached_entry_def)
  have h4: "token e \<noteq> []" by (simp add: e_def)
  have h5: "100 < expiresAt e" by (simp add: e_def)
  have "getBatchTokenForRepo sample_app sample_directory ''octo/beta'' 100 105 st1 =
          (Inr (token e), st1)"
    by (rule cache_hit_returns_cached_token [OF h1 h2 h3 h4 h5])
  then show ?thesis
    using h1 h2 h3 unfolding st1_def e_def by simp
qed

section \<open>Failure of a token request\<close>

text \<open>
  Claim C3. Whenever the provider call fails, \<^verbatim>\<open>getAccessToken\<close> propagates an error. The
  code does not: with valid parameters and a provider that answers \<open>403\<close>, the request is
  rejected, \<^verbatim>\<open>requestInstallationAccessToken\<close> leaves its loop and returns \<^verbatim>\<open>undefined\<close>,
  and \<^verbatim>\<open>getAccessToken\<close> returns \<^verbatim>\<open>undefined\<close>; the same happens when every one of the three
  attempts is answered \<open>503\<close>, and when signing the JWT throws.
\<close>

theorem getAccessToken_swallows_failure:
  "getAccessToken (Inr ''jwt'') (\<lambda>k. Answered 403 ''Forbidden'') 3 ''Iv1.abc'' ''KEY'' 42 =
     Inr None \<and>
   getAccessToken (Inr ''jwt'') (\<lambda>k. Answered 503 ''Unavailable'') 3 ''Iv1.abc'' ''KEY'' 42 =
     Inr None \<and>
   getAccessToken (Inl (JwtError ''bad key'')) (\<lambda>k. Answered 201 ''{token}'') 3
     ''Iv1.abc'' ''KEY'' 42 = Inr None"
  by (simp add: getAccessToken_def getAccessToken_body_def validateCoreParams_def
        generateJWT_def requestInstallationAccessToken_def request_loop.simps [of _ 3]
        axios_post_def validateStatus_def)

section \<open>Unknown repositories\<close>

text \<open>
  Claim C4. For every repository full name that is not a key of the directory, the broker
  call fails with the error "Repo info not found" for that name and sends no request to
  the provider.
\<close>

theorem unknown_repository_fails_without_request:
  assumes "repoFullName \<notin> fst ` set repoIdCache"
  shows "fst (getBatchTokenForRepo ap repoIdCache repoFullName now later st) =
           Inl (RepoInfoNotFound repoFullName) \<and>
         provider_requests (snd (getBatchTokenForRepo ap repoIdCache repoFullName now later st)) =
           provider_requests st"
proof -
  have none: "map_of repoIdCache repoFullName = None"
    using assms by (simp add: map_of_eq_None_iff)
  show ?thesis
  proof (cases "repoFullName \<in> set object_prototype_keys")
    case True
    then have "js_get repoIdCache repoFullName = Inherited"
      using none by (simp add: js_get_def)
    then have "broker_lookup repoIdCache repoFullName now (batchTokenCache st) =
                 (Threw (RepoInfoNotFound repoFullName),
                  ensure_installation (batchTokenCache st) None)"
      by (simp add: broker_lookup_def getInstallationIdForRepo_def
            getBatchIndexForRepoName_def lookup_repo_id_def Let_def)
    then show ?thesis by (simp add: getBatchTokenForRepo_def)
  next
    case False
    then have "js_get repoIdCache repoFullName = Undefined"
      using none by (simp add: js_get_def)
    then have "broker_lookup repoIdCache repoFullName now (batchTokenCache st) =
                 (Threw (RepoInfoNotFound repoFullName), batchTokenCache st)"
      by (simp add: broker_lookup_def getInstallationIdForRepo_def)
    then show ?thesis by (simp add: getBatchTokenForRepo_def)
  qed
qed

theorem unknown_repository_fails_without_request_witness:
  "''ghost-org/ghost-repo'' \<notin> fst ` set sample_directory \<and>
   fst (getBatchTokenForRepo sample_app sample_directory ''ghost-org/ghost-repo'' 0 5 empty_state) =
     Inl (RepoInfoNotFound ''ghost-org/ghost-repo'') \<and>
   provider_requests
     (snd (getBatchTokenForRepo sample_app sample_directory ''ghost-org/ghost-repo'' 0 5
             empty_state)) = provider_requests empty_state"
proof -
  have h: "''ghost-org/ghost-repo'' \<notin> fst ` set sample_directory"
    by (simp add: sample_directory_def)
  show ?thesis
    using h unknown_repository_fails_without_request [OF h] by blast
qed

section \<open>Partition properties of chunk\<close>

text \<open>
  Claim C5. For every input list \<open>orderedIds\<close> and every \<open>batchSize \<ge> 1\<close>,
  \<^verbatim>\<open>chunk\<close> returns, the concatenation of its batches is the input list, batch \<open>k\<close> holds
  exactly the elements at the positions \<open>k * batchSize ..< k * batchSize + length (batch k)\<close>
  of the input, and the position ranges of two distinct batches are disjoint: every element
  position lies in exactly one batch.
\<close>

theorem chunk_coverage_disjoint:
  assumes "1 \<le> batchSize"
  shows "\<exists>bs. chunk (JSArray orderedIds) batchSize = Some bs \<and> concat bs = orderedIds \<and>
           (\<forall>k<length bs.
              k * nat batchSize + length (bs ! k) \<le> length orderedIds \<and>
              bs ! k = map ((!) orderedIds)
                         [k * nat batchSize ..< k * nat batchSize + length (bs ! k)]) \<and>
           (\<forall>j<length bs. \<forall>k<length bs. j \<noteq> k \<longrightarrow>
              {j * nat batchSize ..< j * nat batchSize + length (bs ! j)} \<inter>
              {k * nat batchSize ..< k * nat batchSize + length (bs ! k)} = {})"
proof -
  define n where "n = nat batchSize"
  define bs where "bs = pieces n orderedIds"
  have n: "0 < n" using assms by (simp add: n_def)
  have ret: "chunk (JSArray orderedIds) batchSize = Some bs"
    using chunk_pieces [OF assms] by (simp add: bs_def n_def)
  have cat: "concat bs = orderedIds"
    using concat_pieces [OF n] by (simp add: bs_def)
  have len: "length (bs ! k) = min n (length orderedIds - k * n)" if "k < length bs" for k
    using pieces_piece_length [OF n] that by (simp add: bs_def)
  have inside: "k * n < length orderedIds" if "k < length bs" for k
    using pieces_index_iff [OF n, of k orderedIds] that by (simp add: bs_def)
  have pos: "k * n + length (bs ! k) \<le> length orderedIds \<and>
             bs ! k = map ((!) orderedIds) [k * n ..< k * n + length (bs ! k)]"
    if k: "k < length bs" for k
  proof -
    have le: "k * n + length (bs ! k) \<le> length orderedIds"
      using len [OF k] inside [OF k] by simp
    have "bs ! k = take n (drop (k * n) orderedIds)"
      using pieces_nth [OF n] k by (simp add: bs_def)
    also have "\<dots> = take (length (bs ! k)) (drop (k * n) orderedIds)"
      using len [OF k] by (simp add: min_def)
    also have "\<dots> = map ((!) orderedIds) [k * n ..< k * n + length (bs ! k)]"
      using le by (rule take_drop_positions)
    finally show ?thesis using le by simp
  qed
  have apart: "{j * n ..< j * n + length (bs ! j)} \<inter> {k * n ..< k * n + length (bs ! k)} = {}"
    if j: "j < length bs" and jk: "j < k" for j k
  proof -
    have "j * n + length (bs ! j) \<le> j * n + n"
      using len [OF j] by simp
    also have "\<dots> = Suc j * n" by simp
    also have "\<dots> \<le> k * n"
      using jk by (intro mult_le_mono1) simp
    finally show ?thesis by auto
  qed
  have disj: "{j * n ..< j * n + length (bs ! j)} \<inter> {k * n ..< k * n + length (bs ! k)} = {}"
    if "j < length bs" "k < length bs" "j \<noteq> k" for j k
  proof (cases "j < k")
    case True
    then show ?thesis using apart that by blast
  next
    case False
    then have "k < j" using that by simp
    then show ?thesis using apart [of k j] that by blast
  qed
  show ?thesis
    using ret cat pos disj unfolding n_def by blast
qed

theorem chunk_coverage_disjoint_witness:
  "(1::int) \<le> 2 \<and>
   chunk (JSArray [10, 20, 30, 40, 50 :: int]) 2 = Some [[10, 20], [30, 40], [50]] \<and>
   (\<exists>bs. chunk (JSArray [10, 20, 30, 40, 50 :: int]) 2 = Some bs \<and>
         concat bs = [10, 20, 30, 40, 50] \<and>
         (\<forall>k<length bs.
            k * nat 2 + length (bs ! k) \<le> length [10, 20, 30, 40, 50 :: int] \<and>
            bs ! k = map ((!) [10, 20, 30, 40, 50])
                       [k * nat 2 ..< k * nat 2 + length (bs ! k)]) \<and>
         (\<forall>j<length bs. \<forall>k<length bs. j \<noteq> k \<longrightarrow>
            {j * nat 2 ..< j * nat 2 + length (bs ! j)} \<inter>
            {k * nat 2 ..< k * nat 2 + length (bs ! k)} = {}))"
proof -
  have h: "(1::int) \<le> 2" by simp
  have ev: "chunk (JSArray [10, 20, 30, 40, 50 :: int]) 2 = Some [[10, 20], [30, 40], [50]]"
    by (simp add: chunk_loop.simps js_slice_def)
  show ?thesis
    using h ev chunk_coverage_disjoint [OF h, of "[10, 20, 30, 40, 50]"] by blast
qed

text \<open>
  Claim C6. For every non-empty input list and every \<open>batchSize \<ge> 1\<close>, \<^verbatim>\<open>chunk\<close> returns
  at least one batch, every batch except possibly the last has exactly \<open>batchSize\<close>
  members, the last batch has between \<open>1\<close> and \<open>batchSize\<close> members, and no batch is empty.
\<close>

theorem chunk_size_bound:
  assumes "1 \<le> batchSize" and "orderedIds \<noteq> []"
  shows "\<exists>bs. chunk (JSArray orderedIds) batchSize = Some bs \<and> bs \<noteq> [] \<and>
           (\<forall>k. k + 1 < length bs \<longrightarrow> length (bs ! k) = nat batchSize) \<and>
           1 \<le> length (last bs) \<and> length (last bs) \<le> nat batchSize \<and>
           (\<forall>b\<in>set bs. b \<noteq> [])"
proof -
  define n where "n = nat batchSize"
  define bs where "bs = pieces n orderedIds"
  have n: "0 < n" using assms by (simp add: n_def)
  have ret: "chunk (JSArray orderedIds) batchSize = Some bs"
    using chunk_pieces [OF assms(1)] by (simp add: bs_def n_def)
  have ne: "bs \<noteq> []"
    using pieces_step [OF n assms(2)] by (simp add: bs_def)
  have nonempty: "\<forall>b\<in>set bs. b \<noteq> []"
    using pieces_nonempty [OF n] by (auto simp: bs_def)
  have len: "length (bs ! k) = min n (length orderedIds - k * n)" if "k < length bs" for k
    using pieces_piece_length [OF n] that by (simp add: bs_def)
  have full: "length (bs ! k) = n" if k: "k + 1 < length bs" for k
  proof -
    have "Suc k * n < length orderedIds"
      using pieces_index_iff [OF n, of "Suc k" orderedIds] k by (simp add: bs_def)
    then have "n \<le> length orderedIds - k * n" by simp
    moreover have "k < length bs" using k by simp
    ultimately show ?thesis using len by simp
  qed
  have lastk: "last bs = bs ! (length bs - 1)"
    using ne by (rule last_conv_nth)
  have "last bs \<in> set bs" using ne by simp
  then have l1: "1 \<le> length (last bs)"
    using nonempty by (metis One_nat_def Suc_leI length_greater_0_conv)
  have l2: "length (last bs) \<le> n"
    using len [of "length bs - 1"] ne lastk by simp
  show ?thesis
    using ret ne full l1 l2 nonempty unfolding n_def by blast
qed

theorem chunk_size_bound_witness:
  "(1::int) \<le> 2 \<and> [10, 20, 30, 40, 50 :: int] \<noteq> [] \<and>
   (\<exists>bs. chunk (JSArray [10, 20, 30, 40, 50 :: int]) 2 = Some bs \<and> bs \<noteq> [] \<and>
         (\<forall>k. k + 1 < length bs \<longrightarrow> length (bs ! k) = nat 2) \<and>
         1 \<le> length (last bs) \<and> length (last bs) \<le> nat 2 \<and>
         (\<forall>b\<in>set bs. b \<noteq> []))"
proof -
  have h1: "(1::int) \<le> 2" by simp
  have h2: "[10, 20, 30, 40, 50 :: int] \<noteq> []" by simp
  show ?thesis
    using h1 h2 chunk_size_bound [OF h1 h2] by blast
qed

section \<open>Agreement of batch index and batch\<close>

text \<open>
  Claim C7. For every directory snapshot, every installation and every repository whose id
  (a provider-assigned, non-zero number) occurs in the installation's id list,
  \<^verbatim>\<open>getBatchIndexForRepoName\<close> returns an index \<open>i\<close> into the partition
  \<^verbatim>\<open>chunk(ids, BATCH_SIZE)\<close> of that list, \<^verbatim>\<open>getBatchForRepoName\<close> returns exactly the batch
  at index \<open>i\<close>, and that batch contains the repository's id.
\<close>

theorem batch_index_agrees_with_partition:
  assumes "lookup_repo_id repoIdCache repoFullName = Some rid"
      and "rid \<noteq> 0"
      and "rid \<in> set (installation_repo_ids repoIdCache inst)"
  shows "\<exists>i bs. chunk (JSArray (installation_repo_ids repoIdCache inst)) BATCH_SIZE = Some bs \<and>
           getBatchIndexForRepoName repoIdCache inst repoFullName = Inr i \<and>
           0 \<le> i \<and> nat i < length bs \<and>
           getBatchForRepoName repoIdCache inst repoFullName = Inr (bs ! nat i) \<and>
           rid \<in> set (bs ! nat i)"
proof -
  define ids where "ids = installation_repo_ids repoIdCache inst"
  have ch: "chunk (JSArray ids) BATCH_SIZE = Some (pieces 500 ids)"
    using chunk_pieces [of BATCH_SIZE ids] by (simp add: BATCH_SIZE_def)
  have "rid \<in> set (concat (pieces 500 ids))"
    using assms(3) concat_pieces [of 500 ids] by (simp add: ids_def)
  then obtain i where "first_index_including rid (pieces 500 ids) 0 = Inr i"
    using first_index_including_total by blast
  then have "index_loop ids rid 0 = Inr i"
    using index_loop_pieces [of ids rid 0] by simp
  then have idx: "getBatchIndexForRepoName repoIdCache inst repoFullName = Inr i"
    using assms(1,2) by (simp add: getBatchIndexForRepoName_def Let_def ids_def)
  from index_resolves_batch [OF idx] assms(1) ch idx show ?thesis
    unfolding ids_def by auto
qed

theorem batch_index_agrees_with_partition_witness:
  "lookup_repo_id sample_directory ''octo/beta'' = Some 12 \<and> (12::int) \<noteq> 0 \<and>
   12 \<in> set (installation_repo_ids sample_directory (Some 7)) \<and>
   (\<exists>i bs. chunk (JSArray (installation_repo_ids sample_directory (Some 7))) BATCH_SIZE = Some bs \<and>
           getBatchIndexForRepoName sample_directory (Some 7) ''octo/beta'' = Inr i \<and>
           0 \<le> i \<and> nat i < length bs \<and>
           getBatchForRepoName sample_directory (Some 7) ''octo/beta'' = Inr (bs ! nat i) \<and>
           12 \<in> set (bs ! nat i))"
proof -
  have h1: "lookup_repo_id sample_directory ''octo/beta'' = Some 12"
    by (rule sample_lookup)
  have h2: "(12::int) \<noteq> 0" by simp
  have h3: "12 \<in> set (installation_repo_ids sample_directory (Some 7))"
    by (simp add: sample_repo_ids)
  show ?thesis
    using h1 h2 h3 batch_index_agrees_with_partition [OF h1 h2 h3] by blast
qed

section \<open>Refreshing the directory\<close>

text \<open>
  Claim C8. A completed refresh leaves in the directory exactly the repositories enumerated
  during the call. \<^verbatim>\<open>populateRepoCache\<close> does so (\<open>populateRepoCache_exact\<close>);
  \<^verbatim>\<open>populateRepoIdCache\<close> does not clear the object first: on the sample directory, with
  a provider that enumerates installation \<open>7\<close> with the repositories \<^verbatim>\<open>octo/beta\<close> and
  \<^verbatim>\<open>octo/delta\<close> only, the entries \<^verbatim>\<open>octo/alpha\<close> and \<^verbatim>\<open>acme/gamma\<close> survive the completed
  call, while \<^verbatim>\<open>populateRepoCache\<close> on the same input keeps the two enumerated
  repositories only.
\<close>

theorem populateRepoIdCache_keeps_stale_entries:
  "populateRepoIdCache sample_app sample_directory =
     (None,
      [(''octo/alpha'', \<lparr>repo_id = 11, installationId = 7\<rparr>),
       (''octo/beta'', \<lparr>repo_id = 12, installationId = 7\<rparr>),
       (''acme/gamma'', \<lparr>repo_id = 21, installationId = 9\<rparr>),
       (''octo/delta'', \<lparr>repo_id = 13, installationId = 7\<rparr>)]) \<and>
   populateRepoCache sample_app sample_directory =
     (None,
      [(''octo/beta'', \<lparr>repo_id = 12, installationId = 7\<rparr>),
       (''octo/delta'', \<lparr>repo_id = 13, installationId = 7\<rparr>)])"
  by (simp add: populateRepoIdCache_def populateRepoCache_def sample_app_def sample_directory_def)

section \<open>Requests in flight\<close>

text \<open>
  Claim C9, as stated: at most one provider request per key is in flight at any time.
  Two calls for two repositories of the same batch, both started on an empty cache before
  any response has arrived, put two requests for the key \<open>(7, 0)\<close> in flight.
\<close>

theorem in_flight_guard_counterexample:
  "\<not> at_most_one_in_flight
       (snd (concurrent_calls sample_app sample_directory
               [(''octo/alpha'', 0), (''octo/beta'', 0)] (batchTokenCache empty_state, [])))"
  by (simp add: at_most_one_in_flight_def broker_lookup_def sample_installation sample_index
        sample_batch empty_state_def sample_app_def ensure_installation_def cached_entry_def)

text \<open>
  Claim C9, amended. The broker has no in-flight guard: every call that finds no usable
  entry for its key sends its own request. When the provider client can be obtained and
  \<open>n\<close> calls that resolve to the same key \<open>(inst, batchIndex)\<close>, each finding no usable entry
  for it, run their synchronous parts before any response arrives, then \<open>n\<close> requests for
  that key, all for the same batch, are added to the requests in flight.
\<close>

theorem concurrent_misses_each_send_a_request:
  assumes "auth_failure ap = None"
      and "\<forall>c\<in>set calls.
             getInstallationIdForRepo repoIdCache (fst c) = Inr inst \<and>
             getBatchIndexForRepoName repoIdCache inst (fst c) = Inr batchIndex \<and>
             \<not> entry_usable (cached_entry cache inst batchIndex) (snd c)"
  shows "\<exists>b. snd (concurrent_calls ap repoIdCache calls (cache, flying)) =
               flying @ replicate (length calls) ((inst, batchIndex), b)"
  using concurrent_calls_same_key [OF assms] by blast

theorem concurrent_misses_each_send_a_request_witness:
  "auth_failure sample_app = None \<and>
   getInstallationIdForRepo sample_directory ''octo/alpha'' = Inr (Some 7) \<and>
   getBatchIndexForRepoName sample_directory (Some 7) ''octo/alpha'' = Inr 0 \<and>
   getInstallationIdForRepo sample_directory ''octo/beta'' = Inr (Some 7) \<and>
   getBatchIndexForRepoName sample_directory (Some 7) ''octo/beta'' = Inr 0 \<and>
   \<not> entry_usable (cached_entry (batchTokenCache empty_state) (Some 7) 0) 0 \<and>
   (\<exists>b. snd (concurrent_calls sample_app sample_directory
               [(''octo/alpha'', 0), (''octo/beta'', 0)] (batchTokenCache empty_state, [])) =
         [((Some 7, 0), b), ((Some 7, 0), b)])"
proof -
  have h1: "auth_failure sample_app = None" by (simp add: sample_app_def)
  have unusable: "\<not> entry_usable (cached_entry (batchTokenCache empty_state) (Some 7) 0) 0"
    by (simp add: cached_entry_def empty_state_def)
  have h2: "\<forall>c\<in>set [(''octo/alpha'', 0), (''octo/beta'', 0)].
              getInstallationIdForRepo sample_directory (fst c) = Inr (Some 7) \<and>
              getBatchIndexForRepoName sample_directory (Some 7) (fst c) = Inr 0 \<and>
              \<not> entry_usable (cached_entry (batchTokenCache empty_state) (Some 7) 0) (snd c)"
    using unusable by (simp add: sample_installation sample_index)
  have "\<exists>b. snd (concurrent_calls sample_app sample_directory
                    [(''octo/alpha'', 0), (''octo/beta'', 0)] (batchTokenCache empty_state, [])) =
              [] @ replicate (length [(''octo/alpha'', 0 :: int), (''octo/beta'', 0)])
                     ((Some 7, 0), b)"
    by (rule concurrent_misses_each_send_a_request [OF h1 h2])
  then have "\<exists>b. snd (concurrent_calls sample_app sample_directory
                    [(''octo/alpha'', 0), (''octo/beta'', 0)] (batchTokenCache empty_state, [])) =
              [((Some 7, 0), b), ((Some 7, 0), b)]"
    by (simp add: numeral_2_eq_2)
  then show ?thesis
    using h1 unusable sample_installation sample_index by blast
qed

section \<open>reposForBatch and chunk\<close>

text \<open>
  Claim C10. For every list \<open>l\<close>, every \<open>n \<ge> 1\<close> and every batch index \<open>i \<ge> 0\<close>,
  \<^verbatim>\<open>reposForBatch(l, i, n)\<close> is the \<open>i\<close>-th batch of \<^verbatim>\<open>chunk(l, n)\<close> when \<open>i\<close> is less than
  the number of batches and the empty list when \<open>i\<close> is at or past the number of batches;
  for every \<open>i < 0\<close> it throws instead of returning a list.
\<close>

theorem reposForBatch_chunk:
  assumes "1 \<le> n"
  shows "\<exists>bs. chunk (JSArray l) n = Some bs \<and>
           (\<forall>i\<ge>0. reposForBatch l i n = Inr (if nat i < length bs then bs ! nat i else [])) \<and>
           (\<forall>i<0. reposForBatch l i n = Inl BatchIndexNegative)"
proof -
  define m where "m = nat n"
  have m: "0 < m" using assms by (simp add: m_def)
  have ret: "chunk (JSArray l) n = Some (pieces m l)"
    using chunk_pieces [OF assms] by (simp add: m_def)
  have inr: "reposForBatch l i n =
               Inr (if nat i < length (pieces m l) then pieces m l ! nat i else [])"
    if i: "0 \<le> i" for i
  proof (cases "nat i < length (pieces m l)")
    case True
    then show ?thesis
      using i js_slice_batch [OF i assms, of l] pieces_nth [OF m True]
      by (simp add: reposForBatch_def m_def)
  next
    case False
    then have "length l \<le> nat i * m"
      using pieces_index_iff [OF m, of "nat i" l] by simp
    then show ?thesis
      using i False js_slice_batch [OF i assms, of l]
      by (simp add: reposForBatch_def m_def)
  qed
  have inl: "reposForBatch l i n = Inl BatchIndexNegative" if "i < 0" for i
    using that by (simp add: reposForBatch_def)
  show ?thesis using ret inr inl by blast
qed

theorem reposForBatch_chunk_witness:
  "(1::int) \<le> 2 \<and>
   reposForBatch ''abcde'' 1 2 = Inr ''cd'' \<and>
   reposForBatch ''abcde'' 3 2 = Inr [] \<and>
   reposForBatch ''abcde'' (- 1) 2 = Inl BatchIndexNegative \<and>
   (\<exists>bs. chunk (JSArray ''abcde'') 2 = Some bs \<and>
         (\<forall>i\<ge>0. reposForBatch ''abcde'' i 2 =
                   Inr (if nat i < length bs then bs ! nat i else [])) \<and>
         (\<forall>i<0. reposForBatch ''abcde'' i 2 = Inl BatchIndexNegative))"
proof -
  have h: "(1::int) \<le> 2" by simp
  have ev: "reposForBatch ''abcde'' 1 2 = Inr ''cd''"
           "reposForBatch ''abcde'' 3 2 = Inr []"
           "reposForBatch ''abcde'' (- 1) 2 = Inl BatchIndexNegative"
    by (simp_all add: reposForBatch_def js_slice_def)
  show ?thesis
    using h ev reposForBatch_chunk [OF h, of "''abcde''"] by blast
qed

end
